theory Spec2Isabelle
  imports Main "HOL-Library.Word" "HOL-Library.While_Combinator"
begin

section \<open>The Sudoku grid of py-sudoku\<close>

text \<open>
  The class \<open>Grid\<close> of \<open>sudoku.py\<close> has one field, the NumPy array
  \<open>self.__G = np.zeros((9, 9), dtype = np.int8)\<close>. A grid is modelled as the
  list of its rows; a cell is a signed 8-bit integer, read with \<open>sint\<close>. The
  array always has the shape (9, 9), which the predicate \<open>grid_shape\<close> states.
\<close>

type_synonym cell = "8 word"

type_synonym grid = "cell list list"

text \<open>
  An array handed over by value (the argument of \<open>set_grid\<close>, the result of
  \<open>get_grid\<close>): its shape and its elements in row-major order. The elements
  are the integer values the array holds; storing them into the grid casts them to
  \<open>int8\<close>.
\<close>

record ndarray =
  shape :: "nat list"
  data :: "int list"

datatype error = IndexError

definition grid_shape :: "grid \<Rightarrow> bool" where
  "grid_shape g = (length g = 9 \<and> list_all (\<lambda>r. length r = 9) g)"

text \<open>\<open>Grid()\<close>: \<open>np.zeros((9, 9), dtype = np.int8)\<close>.\<close>

definition init :: grid where
  "init = replicate 9 (replicate 9 0)"

text \<open>
  NumPy resolves an integer index \<open>i\<close> on an axis of length \<open>n\<close>: an index in
  \<open>[0, n)\<close> is taken as it is, one in \<open>[-n, 0)\<close> counts from the end, any
  other raises \<open>IndexError\<close>.
\<close>

definition index :: "int \<Rightarrow> nat \<Rightarrow> error + nat" where
  "index i n =
     (if 0 \<le> i \<and> i < int n then Inr (nat i)
      else if - int n \<le> i \<and> i < 0 then Inr (nat (i + int n))
      else Inl IndexError)"

text \<open>
  A basic slice \<open>xs[start : stop]\<close> of Python and NumPy: negative bounds count
  from the end, and both bounds are clipped to the axis.
\<close>

definition clip :: "int \<Rightarrow> nat \<Rightarrow> nat" where
  "clip i n = (let j = (if i < 0 then i + int n else i) in
     if j < 0 then 0 else if int n < j then n else nat j)"

definition slice :: "int \<Rightarrow> int \<Rightarrow> 'a list \<Rightarrow> 'a list" where
  "slice start stop xs =
     (let s = clip start (length xs); e = clip stop (length xs)
      in take (e - s) (drop s xs))"

text \<open>\<open>range(n)\<close>.\<close>

definition range_py :: "nat \<Rightarrow> int list" where
  "range_py n = map int [0..<n]"

text \<open>A \<open>for\<close> loop over a list whose body may raise.\<close>

fun for_loop :: "('a \<Rightarrow> 's \<Rightarrow> error + 's) \<Rightarrow> 'a list \<Rightarrow> 's \<Rightarrow> error + 's" where
  "for_loop body [] s = Inr s"
| "for_loop body (x # xs) s =
     (case body x s of Inl e \<Rightarrow> Inl e | Inr s' \<Rightarrow> for_loop body xs s')"

subsection \<open>Cell access\<close>

text \<open>
  \<open>self.__G[row, column] = value\<close>. The value is cast to \<open>int8\<close>.
\<close>

definition set_number :: "grid \<Rightarrow> int \<Rightarrow> int \<Rightarrow> int \<Rightarrow> error + grid" where
  "set_number g row column v =
     (case index row 9 of
        Inl e \<Rightarrow> Inl e
      | Inr r \<Rightarrow>
          (case index column 9 of
             Inl e \<Rightarrow> Inl e
           | Inr c \<Rightarrow> Inr (g[r := (g ! r)[c := word_of_int v]])))"

definition get_number :: "grid \<Rightarrow> int \<Rightarrow> int \<Rightarrow> error + cell" where
  "get_number g row column =
     (case index row 9 of
        Inl e \<Rightarrow> Inl e
      | Inr r \<Rightarrow>
          (case index column 9 of
             Inl e \<Rightarrow> Inl e
           | Inr c \<Rightarrow> Inr (g ! r ! c)))"

subsection \<open>Bulk access\<close>

text \<open>\<open>np.copy(self.__G[:, :])\<close>: an independent array of the 81 values.\<close>

definition get_grid :: "grid \<Rightarrow> ndarray" where
  "get_grid g = \<lparr>shape = [9, 9], data = map sint (concat g)\<rparr>"

text \<open>
  \<open>set_grid\<close> assigns \<open>self.__G[:, :] = np.copy(grid[:, :])\<close> when the
  argument's shape is (9, 9), and does nothing otherwise. Element \<open>[r, c]\<close> of a
  two-dimensional array with nine columns is at position \<open>r * 9 + c\<close> of its data.
\<close>

definition set_grid :: "grid \<Rightarrow> ndarray \<Rightarrow> grid" where
  "set_grid g a =
     (if length (shape a) = 2 then
        (if shape a ! 0 = 9 \<and> shape a ! 1 = 9 then
           map (\<lambda>r. map (\<lambda>c. word_of_int (data a ! (r * 9 + c))) [0..<9]) [0..<9]
         else g)
      else g)"

subsection \<open>Assigned cells and completion\<close>

definition is_solved :: "grid \<Rightarrow> int \<Rightarrow> int \<Rightarrow> error + bool" where
  "is_solved g row column =
     (case get_number g row column of Inl e \<Rightarrow> Inl e | Inr c \<Rightarrow> Inr (0 < sint c))"

definition is_completed :: "grid \<Rightarrow> error + bool" where
  "is_completed g =
     for_loop (\<lambda>row. for_loop (\<lambda>column completed.
         (case is_solved g row column of
            Inl e \<Rightarrow> Inl e
          | Inr solved \<Rightarrow> Inr (if \<not> solved then False else completed)))
       (range_py 9)) (range_py 9) True"

subsection \<open>Candidates and the most constrained cell\<close>

text \<open>\<open>i in a\<close> for an integer \<open>i\<close> and the elements \<open>a\<close> of an array.\<close>

definition contains :: "cell list \<Rightarrow> int \<Rightarrow> bool" where
  "contains a i = (i \<in> set (map sint a))"

text \<open>
  The result is the array \<open>np.array([c])\<close> or a list of integers; both are
  modelled as the list of their values.
\<close>

definition get_possibilities :: "grid \<Rightarrow> int \<Rightarrow> int \<Rightarrow> error + int list" where
  "get_possibilities g row column =
     (case get_number g row column of
        Inl e \<Rightarrow> Inl e
      | Inr c \<Rightarrow>
          if 0 < sint c then Inr [sint c]
          else
            (case index row 9 of
               Inl e \<Rightarrow> Inl e
             | Inr r \<Rightarrow>
                 (case index column 9 of
                    Inl e \<Rightarrow> Inl e
                  | Inr k \<Rightarrow>
                      let current_row = g ! r;
                          current_column = map (\<lambda>line. line ! k) g;
                          x = (row div 3) * 3;
                          y = (column div 3) * 3;
                          current_square = map (slice y (y + 3)) (slice x (x + 3) g)
                      in Inr [i \<leftarrow> [1..9].
                                \<not> contains current_row i \<and>
                                \<not> contains current_column i \<and>
                                \<not> contains (concat current_square) i])))"

definition find_most_constrained :: "grid \<Rightarrow> error + (int \<times> int)" where
  "find_most_constrained g =
     (case for_loop (\<lambda>row. for_loop (\<lambda>column (lowest, field).
               (case is_solved g row column of
                  Inl e \<Rightarrow> Inl e
                | Inr solved \<Rightarrow>
                    if \<not> solved then
                      (case get_possibilities g row column of
                         Inl e \<Rightarrow> Inl e
                       | Inr possibilities \<Rightarrow>
                           let count = length possibilities
                           in if count < lowest then Inr (count, (row, column))
                              else Inr (lowest, field))
                    else Inr (lowest, field)))
             (range_py 9)) (range_py 9) (10, (- 1, - 1))
      of Inl e \<Rightarrow> Inl e | Inr (lowest, field) \<Rightarrow> Inr field)"

subsection \<open>The solver\<close>

text \<open>
  One round of the \<open>while\<close> loop of \<open>solve\<close>, from the grid, the queue and the
  flag \<open>abort\<close> to the grid, the queue and the two flags after it.
  \<open>queue.popleft()\<close> raises \<open>IndexError\<close> on an empty queue.
\<close>

definition solve_body ::
  "grid \<Rightarrow> ndarray list \<Rightarrow> bool \<Rightarrow> error + (grid \<times> ndarray list \<times> bool \<times> bool)" where
  "solve_body g queue abort =
     (case find_most_constrained g of
        Inl e \<Rightarrow> Inl e
      | Inr (row, column) \<Rightarrow>
          (case get_possibilities g row column of
             Inl e \<Rightarrow> Inl e
           | Inr possibilities \<Rightarrow>
               (case for_loop (\<lambda>possibility (g1, queue1).
                         (case set_number g1 row column possibility of
                            Inl e \<Rightarrow> Inl e
                          | Inr g2 \<Rightarrow> Inr (g2, queue1 @ [get_grid g2])))
                       possibilities (g, queue)
                of
                  Inl e \<Rightarrow> Inl e
                | Inr (g1, queue1) \<Rightarrow>
                    (case queue1 of
                       [] \<Rightarrow> Inl IndexError
                     | a # queue2 \<Rightarrow>
                         let g2 = set_grid g1 a
                         in (case is_completed g2 of
                               Inl e \<Rightarrow> Inl e
                             | Inr completed \<Rightarrow>
                                 Inr (g2, queue2, completed,
                                      (if length queue2 = 0 then True else abort)))))))"

text \<open>
  The loop may run any number of rounds, so it is a partial function: \<open>None\<close> is
  a run that never returns, \<open>Some (Inl e)\<close> a run that raises, \<open>Some (Inr g)\<close>
  a run that returns with the grid \<open>g\<close>.
\<close>

partial_function (option) solve_loop ::
  "grid \<Rightarrow> ndarray list \<Rightarrow> bool \<Rightarrow> bool \<Rightarrow> (error + grid) option" where
  "solve_loop g queue completed abort =
     (if \<not> completed \<and> \<not> abort then
        (case solve_body g queue abort of
           Inl e \<Rightarrow> Some (Inl e)
         | Inr (g', queue', completed', abort') \<Rightarrow> solve_loop g' queue' completed' abort')
      else Some (Inr g))"

declare solve_loop.simps [code]

definition solve :: "grid \<Rightarrow> (error + grid) option" where
  "solve g =
     (let abort = False;
          queue = [get_grid g]
      in (case is_completed g of
            Inl e \<Rightarrow> Some (Inl e)
          | Inr completed \<Rightarrow> solve_loop g queue completed abort))"

subsection \<open>Rendering\<close>

text \<open>\<open>str(n)\<close> of an integer, in decimal.\<close>

fun str_nat :: "nat \<Rightarrow> string" where
  "str_nat n =
     (if n < 10 then [char_of (48 + n)]
      else str_nat (n div 10) @ [char_of (48 + n mod 10)])"

definition str :: "int \<Rightarrow> string" where
  "str i = (if i < 0 then CHR ''-'' # str_nat (nat (- i)) else str_nat (nat i))"

text \<open>\<open>sep.join(xs)\<close>.\<close>

fun join :: "string \<Rightarrow> string list \<Rightarrow> string" where
  "join sep [] = []"
| "join sep [x] = x"
| "join sep (x # y # ys) = x @ sep @ join sep (y # ys)"

definition to_string :: "grid \<Rightarrow> error + string" where
  "to_string g =
     (case for_loop (\<lambda>row rows.
               let rows1 = (if row mod 3 = 0 \<and> row > 0 then rows @ [''---+---+---''] else rows)
               in (case for_loop (\<lambda>column the_row.
                           let the_row1 =
                                 (if column mod 3 = 0 \<and> column > 0 then the_row @ [''|'']
                                  else the_row)
                           in (case get_number g row column of
                                 Inl e \<Rightarrow> Inl e
                               | Inr n \<Rightarrow>
                                   Inr (the_row1 @ [if 0 < sint n then str (sint n) else ''?''])))
                         (range_py 9) []
                   of
                     Inl e \<Rightarrow> Inl e
                   | Inr the_row \<Rightarrow> Inr (rows1 @ [join [] the_row])))
             (range_py 9) []
      of Inl e \<Rightarrow> Inl e | Inr rows \<Rightarrow> Inr (join [CHR 0x0A] rows))"

subsection \<open>The puzzle of the program's entry point\<close>

definition foo :: grid where
  "foo =
    [[0, 0, 0, 0, 0, 0, 0, 1, 0],
     [4, 0, 0, 0, 0, 0, 0, 0, 0],
     [0, 2, 0, 0, 0, 0, 0, 0, 0],
     [0, 0, 0, 0, 5, 0, 4, 0, 7],
     [0, 0, 8, 0, 0, 0, 3, 0, 0],
     [0, 0, 1, 0, 9, 0, 0, 0, 0],
     [3, 0, 0, 4, 0, 0, 2, 0, 0],
     [0, 5, 0, 1, 0, 0, 0, 0, 0],
     [0, 0, 0, 8, 0, 6, 0, 0, 0]]"

text \<open>
  More grids for the examples below: a completed grid, the same grid with the
  cell (0, 0) cleared, the latter with a second 5 in the first column, which leaves
  no digit for the cell (0, 0), and the completed grid with -5 in the cell (0, 0), as
  \<open>set_number(0, 0, -5)\<close> stores it.
\<close>

definition filled :: grid where
  "filled =
    [[5, 3, 4, 6, 7, 8, 9, 1, 2],
     [6, 7, 2, 1, 9, 5, 3, 4, 8],
     [1, 9, 8, 3, 4, 2, 5, 6, 7],
     [8, 5, 9, 7, 6, 1, 4, 2, 3],
     [4, 2, 6, 8, 5, 3, 7, 9, 1],
     [7, 1, 3, 9, 2, 4, 8, 5, 6],
     [9, 6, 1, 5, 3, 7, 2, 8, 4],
     [2, 8, 7, 4, 1, 9, 6, 3, 5],
     [3, 4, 5, 2, 8, 6, 1, 7, 9]]"

definition one_blank :: grid where
  "one_blank = filled[0 := (filled ! 0)[0 := 0]]"

definition dead_end :: grid where
  "dead_end = one_blank[1 := (one_blank ! 1)[0 := 5]]"

definition negative_cell :: grid where
  "negative_cell = filled[0 := (filled ! 0)[0 := - 5]]"

section \<open>The specification's notions\<close>

text \<open>
  The definitions of this section follow the specification's words, not the code:
  the candidates of a cell, the most constrained cell, and the breadth-first loop of
  its section 4.3. The properties below compare the code with them.
\<close>

text \<open>
  A digit is consistent with a cell when it occurs neither in the cell's row, nor in
  its column, nor in its 3x3 box, whose origin is \<open>(row // 3 * 3, column // 3 * 3)\<close>.
\<close>

definition consistent :: "grid \<Rightarrow> nat \<Rightarrow> nat \<Rightarrow> int \<Rightarrow> bool" where
  "consistent g r c d =
     ((\<forall>k<9. sint (g ! r ! k) \<noteq> d) \<and> (\<forall>k<9. sint (g ! k ! c) \<noteq> d) \<and>
      (\<forall>i<3. \<forall>j<3. sint (g ! (r div 3 * 3 + i) ! (c div 3 * 3 + j)) \<noteq> d))"

text \<open>The 81 cells in row-major order.\<close>

definition cells :: "(nat \<times> nat) list" where
  "cells = List.product [0..<9] [0..<9]"

definition lex_less :: "nat \<times> nat \<Rightarrow> nat \<times> nat \<Rightarrow> bool" where
  "lex_less p q = (fst p < fst q \<or> (fst p = fst q \<and> snd p < snd q))"

text \<open>A cell is assigned when its value is positive.\<close>

definition assigned :: "grid \<Rightarrow> nat \<times> nat \<Rightarrow> bool" where
  "assigned g p = (0 < sint (g ! fst p ! snd p))"

definition spec_completed :: "grid \<Rightarrow> bool" where
  "spec_completed g = list_all (assigned g) cells"

text \<open>
  The candidates of a cell: its value alone when it is assigned, otherwise the
  consistent digits in ascending order.
\<close>

definition spec_candidates :: "grid \<Rightarrow> nat \<times> nat \<Rightarrow> int list" where
  "spec_candidates g p =
     (if assigned g p then [sint (g ! fst p ! snd p)]
      else [d \<leftarrow> [1..9]. consistent g (fst p) (snd p) d])"

text \<open>
  The most constrained cell: among the unassigned cells, the first in row-major order
  with the fewest candidates; none when every cell is assigned.
\<close>

definition spec_most_constrained :: "grid \<Rightarrow> (nat \<times> nat) option" where
  "spec_most_constrained g =
     (case filter (\<lambda>p. \<not> assigned g p) cells of
        [] \<Rightarrow> None
      | p # ps \<Rightarrow> Some (arg_min_list (\<lambda>p. length (spec_candidates g p)) (p # ps)))"

text \<open>Setting a value into a cell of a grid.\<close>

definition put :: "grid \<Rightarrow> nat \<times> nat \<Rightarrow> int \<Rightarrow> grid" where
  "put g p d = g[fst p := (g ! fst p)[snd p := word_of_int d]]"

text \<open>
  The snapshots one round pushes: the live grid with each candidate of its most
  constrained cell, in ascending order; none when there is no candidate.
\<close>

definition spec_children :: "grid \<Rightarrow> grid list" where
  "spec_children g =
     (case spec_most_constrained g of
        None \<Rightarrow> []
      | Some p \<Rightarrow> map (put g p) (spec_candidates g p))"

text \<open>
  One round on the live grid and the frontier: push the snapshots onto the back of
  the frontier, then pop its front, which becomes the live grid. The loop runs while
  the live grid is not completed and the frontier is not empty, from the initial grid
  and the frontier that holds one snapshot of it.
\<close>

definition spec_step :: "grid \<times> grid list \<Rightarrow> grid \<times> grid list" where
  "spec_step s = (let frontier = snd s @ spec_children (fst s) in (hd frontier, tl frontier))"

definition spec_running :: "grid \<times> grid list \<Rightarrow> bool" where
  "spec_running s = (\<not> spec_completed (fst s) \<and> snd s \<noteq> [])"

definition spec_solve :: "grid \<Rightarrow> grid option" where
  "spec_solve g = map_option fst (while_option spec_running spec_step (g, [g]))"

text \<open>
  The measure of the search: the unassigned cells of a grid, and a weight that
  exceeds the weights of any nine grids with one unassigned cell less.
\<close>

definition unassigned :: "grid \<Rightarrow> (nat \<times> nat) set" where
  "unassigned g = {p \<in> set cells. \<not> assigned g p}"

definition weight :: "grid \<Rightarrow> nat" where
  "weight g = 10 ^ card (unassigned g)"

section \<open>Properties\<close>

subsection \<open>Shapes, indices and casts\<close>

lemma index_in_range: "i < n \<Longrightarrow> index (int i) n = Inr i"
  by (simp add: index_def)

lemma sint_int8: "- 128 \<le> v \<Longrightarrow> v \<le> 127 \<Longrightarrow> sint (word_of_int v :: cell) = v"
  by (simp add: sint_sbintrunc' signed_take_bit_int_eq_self)

lemma grid_shape_row: "grid_shape g \<Longrightarrow> r < 9 \<Longrightarrow> length (g ! r) = 9"
  by (simp add: grid_shape_def list_all_length)

lemma grid_shape_length: "grid_shape g \<Longrightarrow> length g = 9"
  by (simp add: grid_shape_def)

lemma grid_shape_init: "grid_shape init"
  by (simp add: grid_shape_def init_def list_all_iff)

lemma grid_shape_foo: "grid_shape foo"
  by (simp add: grid_shape_def foo_def)

lemma grid_shape_update:
  "grid_shape g \<Longrightarrow> r < 9 \<Longrightarrow> grid_shape (g[r := (g ! r)[c := w]])"
  by (auto simp: grid_shape_def list_all_length nth_list_update)

lemma get_number_nat:
  "r < 9 \<Longrightarrow> c < 9 \<Longrightarrow> get_number g (int r) (int c) = Inr (g ! r ! c)"
  by (simp add: get_number_def index_in_range)

lemma set_number_nat:
  "r < 9 \<Longrightarrow> c < 9 \<Longrightarrow>
   set_number g (int r) (int c) v = Inr (g[r := (g ! r)[c := word_of_int v]])"
  by (simp add: set_number_def index_in_range)

subsection \<open>Setting and reading a cell\<close>

text \<open>
  C7. On a 9x9 grid, for every row and column in [0, 9) and every value \<open>v\<close> in
  [0, 9], \<open>set_number(row, column, v)\<close> succeeds, and \<open>get_number(row, column)\<close>
  on the grid it leaves returns \<open>v\<close>.
\<close>

theorem set_get_round_trip:
  assumes "grid_shape g" and "r < 9" and "c < 9" and "0 \<le> v" and "v \<le> 9"
  shows "\<exists>g' n. set_number g (int r) (int c) v = Inr g' \<and>
           get_number g' (int r) (int c) = Inr n \<and> sint n = v"
  using assms
  by (simp add: set_number_nat get_number_nat grid_shape_length grid_shape_row sint_int8)

theorem set_get_round_trip_witness:
  "grid_shape init \<and> (3::nat) < 9 \<and> (4::nat) < 9 \<and> (0::int) \<le> 7 \<and> (7::int) \<le> 9 \<and>
   (\<exists>g' n. set_number init (int 3) (int 4) 7 = Inr g' \<and>
      get_number g' (int 3) (int 4) = Inr n \<and> sint n = 7)"
  using set_get_round_trip [of init 3 4 7] by (simp add: grid_shape_init)

text \<open>
  C6, as the code has it. The specification asks for an error at every row or column
  outside [0, 9). The code indexes the NumPy array without a check of its own, so a
  row or a column in [-9, 0) counts from the end: \<open>get_number(-1, 0)\<close> reads the
  cell (8, 0) and \<open>set_number(-1, 0, 7)\<close> writes it.
\<close>

theorem negative_index_counterexample:
  "get_number (init[8 := (init ! 8)[0 := 7]]) (- 1) 0 = Inr 7 \<and>
   set_number init (- 1) 0 7 = Inr (init[8 := (init ! 8)[0 := 7]])"
  by (simp add: get_number_def set_number_def index_def init_def)

text \<open>
  C6, amended. For every row or column outside [-9, 9), \<open>set_number\<close> and
  \<open>get_number\<close> fail with \<open>IndexError\<close>; a row or a column in [-9, 0) is not
  rejected: it addresses the cell at that index plus 9.
\<close>

theorem index_out_of_range:
  "(row < - 9 \<or> 9 \<le> row \<or> column < - 9 \<or> 9 \<le> column \<longrightarrow>
      get_number g row column = Inl IndexError \<and> set_number g row column v = Inl IndexError) \<and>
   (- 9 \<le> row \<and> row < 0 \<longrightarrow>
      get_number g row column = get_number g (row + 9) column \<and>
      set_number g row column v = set_number g (row + 9) column v) \<and>
   (- 9 \<le> column \<and> column < 0 \<longrightarrow>
      get_number g row column = get_number g row (column + 9) \<and>
      set_number g row column v = set_number g row (column + 9) v)"
  by (auto simp: get_number_def set_number_def index_def split: sum.splits)

theorem index_out_of_range_witness:
  "get_number init 9 0 = Inl IndexError \<and> set_number init 0 (- 10) 1 = Inl IndexError \<and>
   get_number init (- 9) 3 = get_number init 0 3 \<and>
   set_number init 2 (- 4) 5 = set_number init 2 5 5"
  using index_out_of_range [of 9 0 init 1] index_out_of_range [of 0 "- 10" init 1]
    index_out_of_range [of "- 9" 3 init 1] index_out_of_range [of 2 "- 4" init 5]
  by simp

subsection \<open>Replacing the whole grid\<close>

text \<open>
  C5. For an array whose shape is not (9, 9), of any number of dimensions,
  \<open>set_grid\<close> leaves the grid as it is. For an array of shape (9, 9) the grid
  becomes the 9x9 grid whose cell \<open>(r, c)\<close> is the array's element \<open>[r, c]\<close>,
  cast to \<open>int8\<close>; an element that is an \<open>int8\<close> value is stored as it is.
\<close>

theorem set_grid_shape_check:
  "(shape a \<noteq> [9, 9] \<longrightarrow> set_grid g a = g) \<and>
   (shape a = [9, 9] \<longrightarrow>
      grid_shape (set_grid g a) \<and>
      (\<forall>r<9. \<forall>c<9. set_grid g a ! r ! c = word_of_int (data a ! (r * 9 + c))) \<and>
      (\<forall>r<9. \<forall>c<9. - 128 \<le> data a ! (r * 9 + c) \<and> data a ! (r * 9 + c) \<le> 127 \<longrightarrow>
         sint (set_grid g a ! r ! c) = data a ! (r * 9 + c)))"
proof (intro conjI impI)
  assume "shape a \<noteq> [9, 9]"
  then show "set_grid g a = g"
    by (cases "shape a"; cases "tl (shape a)"; cases "tl (tl (shape a))")
      (auto simp: set_grid_def)
next
  assume s: "shape a = [9, 9]"
  then have eq: "set_grid g a =
      map (\<lambda>r. map (\<lambda>c. word_of_int (data a ! (r * 9 + c))) [0..<9]) [0..<9]"
    by (simp add: set_grid_def)
  show "grid_shape (set_grid g a)"
    unfolding eq by (simp add: grid_shape_def list_all_iff)
  show cells: "\<forall>r<9. \<forall>c<9. set_grid g a ! r ! c = word_of_int (data a ! (r * 9 + c))"
    unfolding eq by (simp del: upt_Suc)
  show "\<forall>r<9. \<forall>c<9. - 128 \<le> data a ! (r * 9 + c) \<and> data a ! (r * 9 + c) \<le> 127 \<longrightarrow>
         sint (set_grid g a ! r ! c) = data a ! (r * 9 + c)"
    using cells by (simp add: sint_int8)
qed

theorem set_grid_shape_check_witness:
  "set_grid foo \<lparr>shape = [3, 3], data = replicate 9 1\<rparr> = foo \<and>
   set_grid foo \<lparr>shape = [81], data = replicate 81 1\<rparr> = foo \<and>
   grid_shape (set_grid foo \<lparr>shape = [9, 9], data = replicate 81 5\<rparr>) \<and>
   sint (set_grid foo \<lparr>shape = [9, 9], data = replicate 81 5\<rparr> ! 2 ! 3) = 5"
  using set_grid_shape_check [of "\<lparr>shape = [3, 3], data = replicate 9 1\<rparr>" foo]
    set_grid_shape_check [of "\<lparr>shape = [81], data = replicate 81 1\<rparr>" foo]
    set_grid_shape_check [of "\<lparr>shape = [9, 9], data = replicate 81 5\<rparr>" foo]
  by simp

subsection \<open>Candidates of a cell\<close>

text \<open>
  C4. For a cell in [0, 9) x [0, 9) that holds a value \<open>v > 0\<close>,
  \<open>get_possibilities\<close> returns the one-element sequence of \<open>v\<close>.
\<close>

theorem get_possibilities_assigned:
  assumes "r < 9" and "c < 9" and "sint (g ! r ! c) = v" and "0 < v"
  shows "get_possibilities g (int r) (int c) = Inr [v]"
  using assms by (simp add: get_possibilities_def get_number_nat)

theorem get_possibilities_assigned_witness:
  "(1::nat) < 9 \<and> (0::nat) < 9 \<and> sint (foo ! 1 ! 0) = 4 \<and> (0::int) < 4 \<and>
   get_possibilities foo (int 1) (int 0) = Inr [4]"
  using get_possibilities_assigned [of 1 0 foo 4] by (simp add: foo_def)

lemma slice_three:
  assumes "n + 3 \<le> length xs"
  shows "slice (int n) (int n + 3) xs = [xs ! n, xs ! (n + 1), xs ! (n + 2)]"
proof -
  have c1: "clip (int n) (length xs) = n" and c2: "clip (int n + 3) (length xs) = n + 3"
    using assms by (simp_all add: clip_def Let_def)
  have "take 3 (drop n xs) = [xs ! n, xs ! (n + 1), xs ! (n + 2)]"
    using assms by (simp add: list_eq_iff_nth_eq nth_Cons' numeral_3_eq_3 less_Suc_eq)
  then show ?thesis by (simp add: slice_def c1 c2)
qed

lemma box_origin: "int r div 3 * 3 = int (r div 3 * 3)"
  by (simp add: zdiv_int)

lemma box_bound: "r < 9 \<Longrightarrow> r div 3 * 3 + 3 \<le> (9::nat)"
  by arith

lemma contains_nth: "contains a i \<longleftrightarrow> (\<exists>k<length a. sint (a ! k) = i)"
  by (force simp: contains_def in_set_conv_nth)

lemma ex_less_three: "(\<exists>i<3::nat. P i) \<longleftrightarrow> P 0 \<or> P 1 \<or> P 2"
  by (auto simp: numeral_3_eq_3 numeral_2_eq_2 less_Suc_eq)

lemma square_contains:
  assumes "grid_shape g" and "r < 9" and "c < 9"
  shows "contains (concat (map (slice (int c div 3 * 3) (int c div 3 * 3 + 3))
            (slice (int r div 3 * 3) (int r div 3 * 3 + 3) g))) d \<longleftrightarrow>
         (\<exists>i<3. \<exists>j<3. sint (g ! (r div 3 * 3 + i) ! (c div 3 * 3 + j)) = d)"
proof -
  let ?x = "r div 3 * 3" and ?y = "c div 3 * 3"
  have x: "?x + 3 \<le> length g"
    using assms box_bound [of r] by (simp add: grid_shape_length)
  have rows: "slice (int ?x) (int ?x + 3) g = [g ! ?x, g ! (?x + 1), g ! (?x + 2)]"
    using x by (rule slice_three)
  have len: "length (g ! (?x + i)) = 9" if "i < 3" for i
    using that assms(1) box_bound [OF assms(2)] by (intro grid_shape_row) auto
  have cols: "slice (int ?y) (int ?y + 3) (g ! (?x + i)) =
      [g ! (?x + i) ! ?y, g ! (?x + i) ! (?y + 1), g ! (?x + i) ! (?y + 2)]" if "i < 3" for i
    using len [OF that] box_bound [OF assms(3)] by (intro slice_three) simp
  have "contains (concat (map (slice (int ?y) (int ?y + 3))
            (slice (int ?x) (int ?x + 3) g))) d \<longleftrightarrow>
         (\<exists>i<3. \<exists>j<3. sint (g ! (?x + i) ! (?y + j)) = d)"
    unfolding rows using cols [of 0] cols [of 1] cols [of 2]
    by (simp add: contains_def ex_less_three eq_commute [of d] disj_ac numeral_2_eq_2)
  then show ?thesis by (simp only: box_origin)
qed

lemma get_possibilities_nat:
  assumes "grid_shape g" and "r < 9" and "c < 9"
  shows "get_possibilities g (int r) (int c) =
     Inr (if 0 < sint (g ! r ! c) then [sint (g ! r ! c)]
          else [d \<leftarrow> [1..9]. consistent g r c d])"
proof -
  have row: "contains (g ! r) d \<longleftrightarrow> (\<exists>k<9. sint (g ! r ! k) = d)" for d
    using assms by (simp add: contains_nth grid_shape_row)
  have col: "contains (map (\<lambda>line. line ! c) g) d \<longleftrightarrow> (\<exists>k<9. sint (g ! k ! c) = d)" for d
    using assms by (auto simp: contains_nth grid_shape_length)
  show ?thesis
    using assms(2,3)
    by (simp add: get_possibilities_def get_number_nat index_in_range Let_def row col
        square_contains [OF assms] consistent_def [abs_def])
qed

text \<open>
  C2. For an unassigned cell (value 0) in [0, 9) x [0, 9) of a 9x9 grid,
  \<open>get_possibilities\<close> returns the digits 1 to 9, in ascending order, that occur
  neither in the cell's row, nor in its column, nor in its 3x3 box with origin
  \<open>(row // 3 * 3, column // 3 * 3)\<close>; the result is empty exactly when no digit is
  consistent with the three groups.
\<close>

theorem get_possibilities_unassigned:
  assumes "grid_shape g" and "r < 9" and "c < 9" and "g ! r ! c = 0"
  shows "\<exists>ps. get_possibilities g (int r) (int c) = Inr ps \<and>
     ps = [d \<leftarrow> [1..9].
             (\<forall>k<9. sint (g ! r ! k) \<noteq> d) \<and> (\<forall>k<9. sint (g ! k ! c) \<noteq> d) \<and>
             (\<forall>i<3. \<forall>j<3. sint (g ! (r div 3 * 3 + i) ! (c div 3 * 3 + j)) \<noteq> d)] \<and>
     sorted ps \<and> distinct ps \<and>
     (ps = [] \<longleftrightarrow> \<not> (\<exists>d. 1 \<le> d \<and> d \<le> 9 \<and> consistent g r c d))"
proof -
  let ?ps = "[d \<leftarrow> [1..9]. consistent g r c d]"
  have "get_possibilities g (int r) (int c) = Inr ?ps"
    using assms by (simp add: get_possibilities_nat)
  moreover have "sorted ?ps" and "distinct ?ps"
    by (simp_all add: sorted_wrt_filter)
  moreover have "?ps = [] \<longleftrightarrow> \<not> (\<exists>d. 1 \<le> d \<and> d \<le> 9 \<and> consistent g r c d)"
    by (auto simp: filter_empty_conv)
  ultimately show ?thesis
    by (simp add: consistent_def [abs_def])
qed

theorem get_possibilities_unassigned_witness:
  "grid_shape foo \<and> (0::nat) < 9 \<and> (2::nat) < 9 \<and> foo ! 0 ! 2 = 0 \<and>
   get_possibilities foo (int 0) (int 2) =
     Inr [d \<leftarrow> [1..9].
             (\<forall>k<9. sint (foo ! 0 ! k) \<noteq> d) \<and> (\<forall>k<9. sint (foo ! k ! 2) \<noteq> d) \<and>
             (\<forall>i<3. \<forall>j<3. sint (foo ! (0 div 3 * 3 + i) ! (2 div 3 * 3 + j)) \<noteq> d)]"
proof -
  have z: "foo ! 0 ! 2 = 0" by (simp add: foo_def)
  from get_possibilities_unassigned [OF grid_shape_foo _ _ z]
  show ?thesis using z by (auto simp: grid_shape_foo)
qed

subsection \<open>Rendering the empty grid\<close>

text \<open>
  C8. On the all-zero grid, \<open>to_string\<close> returns the string below: eleven lines
  separated by ten newlines, namely nine data rows \<open>???|???|???\<close>, each with two
  bars and a question mark for every cell, and the separator row \<open>---+---+---\<close>
  after the third and after the sixth data row.
\<close>

theorem to_string_init:
  "to_string init =
     Inr ''???|???|???\<newline>???|???|???\<newline>???|???|???\<newline>---+---+---\<newline>???|???|???\<newline>???|???|???\<newline>???|???|???\<newline>---+---+---\<newline>???|???|???\<newline>???|???|???\<newline>???|???|???''"
  by code_simp

subsection \<open>The loops over the 81 cells\<close>

lemma for_loop_total:
  "(\<And>x s. x \<in> set xs \<Longrightarrow> body x s = Inr (f x s)) \<Longrightarrow> for_loop body xs s = Inr (fold f xs s)"
  by (induction xs arbitrary: s) simp_all

lemma fold_product:
  "fold f (List.product xs ys) = fold (\<lambda>x. fold (\<lambda>y. f (x, y)) ys) xs"
  by (induction xs) (simp_all add: fold_map comp_def)

lemma for_loop_cells:
  assumes "\<And>r c s. r < 9 \<Longrightarrow> c < 9 \<Longrightarrow> body (int r) (int c) s = Inr (f (r, c) s)"
  shows "for_loop (\<lambda>row. for_loop (body row) (range_py 9)) (range_py 9) s = Inr (fold f cells s)"
proof -
  have inner: "for_loop (body (int r)) (range_py 9) s = Inr (fold (\<lambda>c. f (r, c)) [0..<9] s)"
    if "r < 9" for r s
  proof -
    have "for_loop (body (int r)) (range_py 9) s =
        Inr (fold (\<lambda>column. f (r, nat column)) (range_py 9) s)"
      using that assms by (intro for_loop_total) (auto simp: range_py_def)
    then show ?thesis by (simp add: range_py_def fold_map comp_def)
  qed
  have "for_loop (\<lambda>row. for_loop (body row) (range_py 9)) (range_py 9) s =
      Inr (fold (\<lambda>row. fold (\<lambda>c. f (nat row, c)) [0..<9]) (range_py 9) s)"
    using inner by (intro for_loop_total) (auto simp: range_py_def)
  then show ?thesis
    by (simp add: range_py_def fold_map comp_def cells_def fold_product)
qed

lemma in_cells: "p \<in> set cells \<longleftrightarrow> fst p < 9 \<and> snd p < 9"
  by (cases p) (simp add: cells_def)

lemma is_solved_nat:
  "r < 9 \<Longrightarrow> c < 9 \<Longrightarrow> is_solved g (int r) (int c) = Inr (assigned g (r, c))"
  by (simp add: is_solved_def get_number_nat assigned_def)

lemma fold_all:
  "fold (\<lambda>x acc. if \<not> P x then False else acc) xs acc = (acc \<and> list_all P xs)"
  by (induction xs arbitrary: acc) auto

lemma is_completed_spec: "is_completed g = Inr (spec_completed g)"
proof -
  have "is_completed g =
      Inr (fold (\<lambda>p completed. if \<not> assigned g p then False else completed) cells True)"
    unfolding is_completed_def by (rule for_loop_cells) (simp add: is_solved_nat)
  then show ?thesis by (simp add: fold_all spec_completed_def)
qed


lemma get_possibilities_spec:
  "grid_shape g \<Longrightarrow> r < 9 \<Longrightarrow> c < 9 \<Longrightarrow>
   get_possibilities g (int r) (int c) = Inr (spec_candidates g (r, c))"
  by (simp add: get_possibilities_nat spec_candidates_def assigned_def)

lemma fold_first_min:
  "fold (\<lambda>x (lo, fd). if k x < lo then (k x, h x) else (lo, fd)) xs (lo0, fd0) =
     (if xs = [] \<or> lo0 \<le> k (arg_min_list k xs) then (lo0, fd0)
      else (k (arg_min_list k xs), h (arg_min_list k xs)))"
proof (induction xs arbitrary: lo0 fd0)
  case Nil
  show ?case by simp
next
  case (Cons x xs)
  show ?case
  proof (cases xs)
    case Nil
    then show ?thesis by auto
  next
    case (Cons y ys)
    then show ?thesis
      using Cons.IH by (auto simp: Let_def)
  qed
qed

lemma arg_min_list_first:
  "xs \<noteq> [] \<Longrightarrow>
   \<exists>ys zs. xs = ys @ arg_min_list k xs # zs \<and> (\<forall>y\<in>set ys. k (arg_min_list k xs) < k y)"
proof (induction xs rule: induct_list012)
  case 1
  then show ?case by simp
next
  case (2 x)
  show ?case by (rule exI [of _ "[]"]) simp
next
  case (3 x y zs)
  let ?m = "arg_min_list k (y # zs)"
  from 3 obtain ys' zs' where split: "y # zs = ys' @ ?m # zs'" and
    less: "\<forall>v\<in>set ys'. k ?m < k v"
    by blast
  show ?case
  proof (cases "k x \<le> k ?m")
    case True
    then have "arg_min_list k (x # y # zs) = x" by (simp add: Let_def)
    then show ?thesis by (metis append_Nil empty_iff list.set(1))
  next
    case False
    then have m: "arg_min_list k (x # y # zs) = ?m" by (simp add: Let_def)
    have "x # y # zs = (x # ys') @ ?m # zs'" using split by simp
    moreover have "\<forall>v\<in>set (x # ys'). k ?m < k v" using less False by auto
    ultimately show ?thesis unfolding m by blast
  qed
qed

lemma sorted_product:
  "sorted_wrt (<) xs \<Longrightarrow> sorted_wrt (<) ys \<Longrightarrow> sorted_wrt lex_less (List.product xs ys)"
  by (induction xs) (auto simp: sorted_wrt_append sorted_wrt_map lex_less_def)

lemma sorted_cells: "sorted_wrt lex_less cells"
  unfolding cells_def by (rule sorted_product) simp_all

lemma count_le_9: "length (spec_candidates g p) \<le> 9"
proof -
  have "length [d \<leftarrow> [1..9]. consistent g (fst p) (snd p) d] \<le> length [1..9::int]"
    by (rule length_filter_le)
  then show ?thesis by (simp add: spec_candidates_def)
qed

lemma find_most_constrained_spec:
  assumes "grid_shape g"
  shows "find_most_constrained g =
     Inr (case spec_most_constrained g of None \<Rightarrow> (- 1, - 1) | Some (r, c) \<Rightarrow> (int r, int c))"
proof -
  let ?k = "\<lambda>p. length (spec_candidates g p)"
  let ?h = "\<lambda>p. (int (fst p), int (snd p))"
  let ?us = "filter (\<lambda>p. \<not> assigned g p) cells"
  let ?step = "\<lambda>p (lo, fd). if ?k p < lo then (?k p, ?h p) else (lo, fd)"
  have loop: "for_loop (\<lambda>row. for_loop (\<lambda>column (lowest, field).
               (case is_solved g row column of
                  Inl e \<Rightarrow> Inl e
                | Inr solved \<Rightarrow>
                    if \<not> solved then
                      (case get_possibilities g row column of
                         Inl e \<Rightarrow> Inl e
                       | Inr possibilities \<Rightarrow>
                           let count = length possibilities
                           in if count < lowest then Inr (count, (row, column))
                              else Inr (lowest, field))
                    else Inr (lowest, field)))
             (range_py 9)) (range_py 9) (10, (- 1, - 1)) =
        Inr (fold (\<lambda>p. if \<not> assigned g p then ?step p else id) cells (10, (- 1, - 1)))"
    by (rule for_loop_cells)
      (auto simp: is_solved_nat get_possibilities_spec [OF assms] Let_def)
  have "fold (\<lambda>p. if \<not> assigned g p then ?step p else id) cells (10, (- 1, - 1)) =
      fold ?step ?us (10, (- 1, - 1))"
    by (simp add: fold_filter)
  also have "\<dots> = (if ?us = [] \<or> 10 \<le> ?k (arg_min_list ?k ?us) then (10, (- 1, - 1))
      else (?k (arg_min_list ?k ?us), ?h (arg_min_list ?k ?us)))"
    by (rule fold_first_min)
  also have "\<dots> = (if ?us = [] then (10, (- 1, - 1))
      else (?k (arg_min_list ?k ?us), ?h (arg_min_list ?k ?us)))"
    using count_le_9 [of g "arg_min_list ?k ?us"] by auto
  finally show ?thesis
    unfolding find_most_constrained_def loop
    by (auto simp: spec_most_constrained_def split: list.splits prod.splits)
qed


lemma most_constrained_props:
  assumes "spec_most_constrained g = Some p"
  shows "p \<in> set cells" and "\<not> assigned g p"
    and "\<And>q. q \<in> set cells \<Longrightarrow> \<not> assigned g q \<Longrightarrow>
           length (spec_candidates g p) \<le> length (spec_candidates g q)"
    and "\<And>q. q \<in> set cells \<Longrightarrow> \<not> assigned g q \<Longrightarrow>
           length (spec_candidates g q) = length (spec_candidates g p) \<Longrightarrow>
           q = p \<or> lex_less p q"
proof -
  let ?k = "\<lambda>p. length (spec_candidates g p)"
  let ?us = "filter (\<lambda>p. \<not> assigned g p) cells"
  from assms have ne: "?us \<noteq> []" and p: "p = arg_min_list ?k ?us"
    by (auto simp: spec_most_constrained_def split: list.splits)
  from arg_min_list_in [OF ne, of ?k] have "p \<in> set ?us" by (simp add: p)
  then show "p \<in> set cells" and "\<not> assigned g p" by simp_all
  show "?k p \<le> ?k q" if "q \<in> set cells" and "\<not> assigned g q" for q
  proof -
    have "?k p = Min (?k ` set ?us)" unfolding p by (rule f_arg_min_list_f [OF ne])
    moreover have "?k q \<in> ?k ` set ?us" using that by simp
    ultimately show ?thesis by simp
  qed
  show "q = p \<or> lex_less p q"
    if "q \<in> set cells" and "\<not> assigned g q" and "?k q = ?k p" for q
  proof -
    from arg_min_list_first [OF ne, of ?k] obtain ys zs where
      split: "?us = ys @ p # zs" and less: "\<forall>y\<in>set ys. ?k p < ?k y"
      unfolding p by blast
    have "sorted_wrt lex_less ?us" by (rule sorted_wrt_filter [OF sorted_cells])
    then have after: "\<forall>z\<in>set zs. lex_less p z"
      unfolding split by (simp add: sorted_wrt_append)
    have "q \<in> set ?us" using that by simp
    then have "q \<in> set ys \<or> q = p \<or> q \<in> set zs" unfolding split by auto
    with less after that(3) show ?thesis by auto
  qed
qed

lemma most_constrained_None:
  "spec_most_constrained g = None \<longleftrightarrow> spec_completed g"
proof -
  have "spec_most_constrained g = None \<longleftrightarrow> filter (\<lambda>p. \<not> assigned g p) cells = []"
    by (simp add: spec_most_constrained_def split: list.splits)
  then show ?thesis
    by (simp add: filter_empty_conv spec_completed_def list_all_iff)
qed



lemma grid_shape_one_blank: "grid_shape one_blank"
  by (simp add: grid_shape_def one_blank_def filled_def)

lemma grid_shape_dead_end: "grid_shape dead_end"
  by (simp add: grid_shape_def dead_end_def one_blank_def filled_def)






subsection \<open>Snapshots and one round of the solver\<close>

lemma length_concat_uniform:
  "\<forall>x\<in>set xss. length x = n \<Longrightarrow> length (concat xss) = length xss * n"
  by (induction xss) simp_all

lemma nth_concat_uniform:
  "\<forall>x\<in>set xss. length x = n \<Longrightarrow> i < length xss \<Longrightarrow> j < n \<Longrightarrow>
   concat xss ! (i * n + j) = xss ! i ! j"
proof (induction xss arbitrary: i)
  case Nil
  then show ?case by simp
next
  case (Cons x xss)
  show ?case
  proof (cases i)
    case 0
    with Cons.prems show ?thesis by (simp add: nth_append)
  next
    case (Suc i')
    with Cons.prems have "concat xss ! (i' * n + j) = xss ! i' ! j"
      by (intro Cons.IH) simp_all
    with Cons.prems Suc show ?thesis by (simp add: nth_append add.assoc)
  qed
qed

lemma set_grid_get_grid:
  assumes "grid_shape h"
  shows "set_grid g (get_grid h) = h"
proof -
  have rows: "\<forall>x\<in>set h. length x = 9" and len: "length h = 9"
    using assms by (simp_all add: grid_shape_def list_all_iff)
  have cell: "word_of_int (map sint (concat h) ! (r * 9 + c)) = h ! r ! c"
    if "r < 9" and "c < 9" for r c
  proof -
    have "r * 9 + c < length (concat h)"
      using that by (simp add: length_concat_uniform [OF rows] len)
    then show ?thesis
      using that by (simp add: nth_concat_uniform [OF rows] len)
  qed
  have "map (\<lambda>r. map (\<lambda>c. word_of_int (map sint (concat h) ! (r * 9 + c))) [0..<9]) [0..<9] = h"
    using len rows cell
    by (simp add: list_eq_iff_nth_eq del: upt_Suc)
  then show ?thesis by (simp add: set_grid_def get_grid_def)
qed

lemma put_put: "put (put g p d) p d' = put g p d'"
  by (cases "fst p < length g") (simp_all add: put_def list_update_beyond)

lemma grid_shape_put: "grid_shape g \<Longrightarrow> fst p < 9 \<Longrightarrow> grid_shape (put g p d)"
  by (simp add: put_def grid_shape_update)

lemma set_number_put:
  "r < 9 \<Longrightarrow> c < 9 \<Longrightarrow> set_number g (int r) (int c) d = Inr (put g (r, c) d)"
  by (simp add: set_number_nat put_def)

lemma expand_pure:
  "for_loop (\<lambda>d (g1, queue1). Inr (put g1 p d, queue1 @ [get_grid (put g1 p d)]))
     ps (g, queue) =
   Inr (if ps = [] then g else put g p (last ps), queue @ map (\<lambda>d. get_grid (put g p d)) ps)"
  by (induction ps arbitrary: g queue) (simp_all add: put_put)

lemma expand_loop:
  assumes "r < 9" and "c < 9"
  shows "for_loop (\<lambda>possibility (g1, queue1).
             (case set_number g1 (int r) (int c) possibility of
                Inl e \<Rightarrow> Inl e
              | Inr g2 \<Rightarrow> Inr (g2, queue1 @ [get_grid g2])))
           ps (g, queue) =
         Inr (if ps = [] then g else put g (r, c) (last ps),
              queue @ map (\<lambda>d. get_grid (put g (r, c) d)) ps)"
  by (simp add: set_number_put [OF assms] expand_pure)

lemma spec_step_frontier:
  "hs \<noteq> [] \<Longrightarrow> fst (spec_step (g, hs)) # snd (spec_step (g, hs)) = hs @ spec_children g"
  by (simp add: spec_step_def Let_def)

lemma candidates_digit:
  "\<not> assigned g p \<Longrightarrow> d \<in> set (spec_candidates g p) \<Longrightarrow> 1 \<le> d \<and> d \<le> 9"
  by (simp add: spec_candidates_def)

lemma spec_children_cases:
  assumes "\<not> spec_completed g"
  obtains p where "p \<in> set cells" and "\<not> assigned g p"
    and "spec_most_constrained g = Some p"
    and "spec_children g = map (put g p) (spec_candidates g p)"
proof -
  from assms obtain p where p: "spec_most_constrained g = Some p"
    by (cases "spec_most_constrained g") (auto simp: most_constrained_None [symmetric])
  from most_constrained_props(1,2) [OF p] p that show thesis
    by (simp add: spec_children_def)
qed

lemma put_nth:
  assumes "grid_shape g" and "p \<in> set cells" and "q \<in> set cells"
  shows "put g p d ! fst q ! snd q = (if q = p then word_of_int d else g ! fst q ! snd q)"
proof -
  have "fst p < length g" and "snd p < length (g ! fst p)"
    using assms by (simp_all add: in_cells grid_shape_length grid_shape_row)
  then show ?thesis
    by (cases p; cases q) (auto simp: put_def nth_list_update)
qed

lemma assigned_put:
  assumes "grid_shape g" and "p \<in> set cells" and "q \<in> set cells" and "1 \<le> d" and "d \<le> 9"
  shows "assigned (put g p d) q \<longleftrightarrow> q = p \<or> assigned g q"
  using assms(4,5) by (simp add: assigned_def put_nth [OF assms(1-3)] sint_int8)

lemma grid_shape_children:
  assumes "grid_shape g" and "h \<in> set (spec_children g)"
  shows "grid_shape h"
proof (cases "spec_most_constrained g")
  case None
  with assms(2) show ?thesis by (simp add: spec_children_def)
next
  case (Some p)
  from most_constrained_props(1) [OF Some] have "fst p < 9" by (simp add: in_cells)
  with assms Some show ?thesis by (auto simp: spec_children_def grid_shape_put)
qed

lemma unassigned_child:
  assumes "grid_shape g" and "p \<in> set cells" and "\<not> assigned g p"
    and "d \<in> set (spec_candidates g p)"
  shows "card (unassigned g) = Suc (card (unassigned (put g p d)))"
proof -
  from candidates_digit [OF assms(3,4)] have d: "1 \<le> d" "d \<le> 9" by simp_all
  have "q \<in> unassigned (put g p d) \<longleftrightarrow> q \<in> unassigned g - {p}" for q
  proof (cases "q \<in> set cells")
    case True
    from assigned_put [OF assms(1,2) True d] True show ?thesis
      by (auto simp: unassigned_def)
  next
    case False
    then show ?thesis by (simp add: unassigned_def)
  qed
  then have diff: "unassigned (put g p d) = unassigned g - {p}"
    by (rule set_eqI)
  have mem: "p \<in> unassigned g" using assms by (simp add: unassigned_def)
  have fin: "finite (unassigned g)" by (simp only: unassigned_def) simp
  have "card (unassigned g) = Suc (card (unassigned g - {p}))"
    using fin mem by (rule card.remove)
  then show ?thesis by (simp only: diff)
qed

lemma weight_child:
  assumes "grid_shape g" and "p \<in> set cells" and "\<not> assigned g p"
    and "d \<in> set (spec_candidates g p)"
  shows "weight g = 10 * weight (put g p d)"
proof -
  have "weight g = 10 ^ Suc (card (unassigned (put g p d)))"
    using unassigned_child [OF assms] by (simp only: weight_def)
  then show ?thesis by (simp only: weight_def power_Suc)
qed

lemma weight_pos: "0 < weight g"
  by (simp add: weight_def)

lemma sum_list_const_bound:
  "(\<And>x. x \<in> set xs \<Longrightarrow> f x = (c::nat)) \<Longrightarrow> sum_list (map f xs) = length xs * c"
  by (induction xs) simp_all

lemma children_weight:
  assumes "grid_shape g" and "\<not> spec_completed g"
  shows "sum_list (map weight (spec_children g)) < weight g"
proof -
  from assms(2) obtain p where p: "p \<in> set cells" "\<not> assigned g p"
    and kids: "spec_children g = map (put g p) (spec_candidates g p)"
    by (rule spec_children_cases)
  let ?ps = "spec_candidates g p"
  have each: "10 * weight h = weight g" if "h \<in> set (spec_children g)" for h
    using that weight_child [OF assms(1) p] by (auto simp: kids)
  have "10 * sum_list (map weight (spec_children g)) =
      sum_list (map (\<lambda>h. 10 * weight h) (spec_children g))"
    by (simp only: sum_list_const_mult)
  also have "\<dots> = length (spec_children g) * weight g"
    using each by (rule sum_list_const_bound)
  also have "\<dots> \<le> 9 * weight g"
    using count_le_9 [of g p] by (simp add: kids)
  finally have "10 * sum_list (map weight (spec_children g)) \<le> 9 * weight g" .
  with weight_pos [of g] show ?thesis by linarith
qed

lemma solve_body_spec:
  assumes "grid_shape g" and "\<forall>h\<in>set hs. grid_shape h" and "hs \<noteq> []"
    and "\<not> spec_completed g"
  shows "solve_body g (map get_grid hs) abort =
     Inr (fst (spec_step (g, hs)), map get_grid (snd (spec_step (g, hs))),
          spec_completed (fst (spec_step (g, hs))),
          snd (spec_step (g, hs)) = [] \<or> abort)"
proof -
  from assms(4) obtain p where p: "p \<in> set cells" "\<not> assigned g p"
    and mc: "spec_most_constrained g = Some p"
    and kids: "spec_children g = map (put g p) (spec_candidates g p)"
    by (rule spec_children_cases)
  obtain r c where rc: "p = (r, c)" by (cases p)
  with p(1) have bounds: "r < 9" "c < 9" by (simp_all add: in_cells)
  from assms(3) obtain h hs' where hs: "hs = h # hs'" by (cases hs) auto
  with assms(2) have h: "grid_shape h" by simp
  have step: "spec_step (g, hs) = (h, hs' @ spec_children g)"
    by (simp add: spec_step_def hs)
  have fmc: "find_most_constrained g = Inr (int r, int c)"
    by (simp add: find_most_constrained_spec [OF assms(1)] mc rc)
  have gp: "get_possibilities g (int r) (int c) = Inr (spec_candidates g (r, c))"
    using assms(1) bounds by (rule get_possibilities_spec)
  show ?thesis
    unfolding solve_body_def fmc step
    by (auto simp: gp expand_loop [OF bounds] hs set_grid_get_grid [OF h] is_completed_spec
        kids rc comp_def)
qed

lemma spec_step_shapes:
  assumes "grid_shape g" and "\<forall>h\<in>set hs. grid_shape h" and "hs \<noteq> []"
  shows "grid_shape (fst (spec_step (g, hs)))"
    and "\<forall>h\<in>set (snd (spec_step (g, hs))). grid_shape h"
proof -
  have "\<forall>h\<in>set (hs @ spec_children g). grid_shape h"
    using assms grid_shape_children [OF assms(1)] by auto
  then have "\<forall>h\<in>set (fst (spec_step (g, hs)) # snd (spec_step (g, hs))). grid_shape h"
    by (simp only: spec_step_frontier [OF assms(3)])
  then show "grid_shape (fst (spec_step (g, hs)))"
    and "\<forall>h\<in>set (snd (spec_step (g, hs))). grid_shape h"
    by simp_all
qed

lemma spec_step_weight:
  assumes "grid_shape g" and "hs \<noteq> []" and "\<not> spec_completed g"
  shows "weight (fst (spec_step (g, hs))) + sum_list (map weight (snd (spec_step (g, hs)))) <
         weight g + sum_list (map weight hs)"
proof -
  have "weight (fst (spec_step (g, hs))) + sum_list (map weight (snd (spec_step (g, hs)))) =
      sum_list (map weight (fst (spec_step (g, hs)) # snd (spec_step (g, hs))))"
    by simp
  also have "\<dots> = sum_list (map weight hs) + sum_list (map weight (spec_children g))"
    by (simp only: spec_step_frontier [OF assms(2)] map_append sum_list_append)
  finally show ?thesis
    using children_weight [OF assms(1,3)] by simp
qed

lemma solve_loop_spec:
  assumes "grid_shape g" and "\<forall>h\<in>set hs. grid_shape h"
  shows "\<exists>t. while_option spec_running spec_step (g, hs) = Some t \<and>
     solve_loop g (map get_grid hs) (spec_completed g) (hs = []) = Some (Inr (fst t))"
  using assms
proof (induction "weight g + sum_list (map weight hs)" arbitrary: g hs rule: less_induct)
  case less
  show ?case
  proof (cases "spec_running (g, hs)")
    case False
    then have "while_option spec_running spec_step (g, hs) = Some (g, hs)"
      by (subst while_option_unfold) simp
    moreover from False
    have "solve_loop g (map get_grid hs) (spec_completed g) (hs = []) = Some (Inr g)"
      by (subst solve_loop.simps) (auto simp: spec_running_def)
    ultimately show ?thesis by simp
  next
    case True
    then have run: "\<not> spec_completed g" "hs \<noteq> []" by (simp_all add: spec_running_def)
    let ?g = "fst (spec_step (g, hs))" and ?hs = "snd (spec_step (g, hs))"
    note shapes = spec_step_shapes [OF less.prems run(2)]
    from less.hyps [OF spec_step_weight [OF less.prems(1) run(2,1)] shapes]
    obtain t where t: "while_option spec_running spec_step (?g, ?hs) = Some t"
      and loop: "solve_loop ?g (map get_grid ?hs) (spec_completed ?g) (?hs = []) =
        Some (Inr (fst t))"
      by blast
    from True t have "while_option spec_running spec_step (g, hs) = Some t"
      by (subst while_option_unfold) simp
    moreover have "solve_body g (map get_grid hs) (hs = []) =
        Inr (?g, map get_grid ?hs, spec_completed ?g, ?hs = [])"
      using run(2) by (simp add: solve_body_spec [OF less.prems run(2,1)])
    then have "solve_loop g (map get_grid hs) (spec_completed g) (hs = []) =
        Some (Inr (fst t))"
      using run by (subst solve_loop.simps) (simp add: loop)
    ultimately show ?thesis by simp
  qed
qed

subsection \<open>The solver\<close>

lemma solve_spec:
  assumes "grid_shape g"
  shows "\<exists>t. while_option spec_running spec_step (g, [g]) = Some t \<and>
     solve g = Some (Inr (fst t))"
proof -
  have "\<forall>h\<in>set [g]. grid_shape h" using assms by simp
  from solve_loop_spec [OF assms this] show ?thesis
    by (simp add: solve_def is_completed_spec)
qed

lemma unassigned_bound: "card (unassigned g) \<le> 81"
proof -
  have "card (unassigned g) \<le> card (set cells)"
    by (rule card_mono) (auto simp: unassigned_def)
  also have "\<dots> \<le> length cells" by (rule card_length)
  also have "\<dots> = 81" by (simp add: cells_def)
  finally show ?thesis .
qed

lemma children_bound: "length (spec_children g) \<le> 9"
  by (cases "spec_most_constrained g") (simp_all add: spec_children_def count_le_9)

lemma children_unassigned:
  assumes "grid_shape g" and "h \<in> set (spec_children g)"
  shows "card (unassigned h) < card (unassigned g)"
proof (cases "spec_most_constrained g")
  case None
  with assms(2) show ?thesis by (simp add: spec_children_def)
next
  case (Some p)
  from assms(2) Some obtain d where d: "d \<in> set (spec_candidates g p)" and h: "h = put g p d"
    by (auto simp: spec_children_def)
  from unassigned_child [OF assms(1) most_constrained_props(1,2) [OF Some] d]
  show ?thesis by (simp add: h)
qed

text \<open>
  C9. \<open>solve\<close> returns on every 9x9 grid, and without raising. A round pushes at
  most nine snapshots, each with fewer unassigned cells than the live grid they come
  from, of which there are at most 81; with one snapshot popped per round, the sum of
  the weights of the live grid and the queued snapshots decreases in every round.
\<close>

theorem solve_terminates:
  assumes "grid_shape g"
  shows "(\<exists>g'. solve g = Some (Inr g')) \<and>
     length (spec_children g) \<le> 9 \<and> card (unassigned g) \<le> 81 \<and>
     (\<forall>h\<in>set (spec_children g). card (unassigned h) < card (unassigned g))"
  using solve_spec [OF assms] children_bound [of g] unassigned_bound [of g]
    children_unassigned [OF assms]
  by blast

theorem solve_terminates_witness:
  "grid_shape foo \<and> (\<exists>g'. solve foo = Some (Inr g'))"
  using solve_terminates [OF grid_shape_foo] grid_shape_foo by blast

text \<open>
  C1. On every 9x9 grid \<open>solve\<close> computes what the loop of the specification's
  section 4.3 computes (\<open>spec_solve\<close>): from the live grid and a frontier holding
  one snapshot of it, while the live grid is not completed and the frontier is not
  empty, it appends to the frontier the live grid with each candidate of its most
  constrained cell, in ascending order, then pops the front of the frontier into the
  live grid. The loop ends, with the live grid completed or the frontier empty, and
  \<open>solve\<close> leaves the live grid of that moment.
\<close>

theorem solve_refines_spec:
  assumes "grid_shape g"
  shows "solve g = map_option Inr (spec_solve g) \<and>
     (\<exists>live frontier. while_option spec_running spec_step (g, [g]) = Some (live, frontier) \<and>
        solve g = Some (Inr live) \<and> (spec_completed live \<or> frontier = []))"
proof -
  from solve_spec [OF assms] obtain t where
    t: "while_option spec_running spec_step (g, [g]) = Some t" and
    s: "solve g = Some (Inr (fst t))"
    by blast
  from while_option_stop [OF t] have "spec_completed (fst t) \<or> snd t = []"
    by (simp add: spec_running_def)
  with t s show ?thesis
    by (cases t) (simp add: spec_solve_def)
qed

lemma solve_dead_end: "solve dead_end = Some (Inr dead_end)"
  by code_simp

lemma dead_end_incomplete: "is_completed dead_end = Inr False"
  by code_simp

text \<open>
  On the grid \<open>dead_end\<close> the search is exhausted after one round: the cell (0, 0)
  has no candidate, nothing is pushed, and the pop of the initial snapshot leaves the
  frontier empty and the live grid incomplete.
\<close>

theorem solve_refines_spec_witness:
  "grid_shape dead_end \<and> solve dead_end = map_option Inr (spec_solve dead_end) \<and>
   solve dead_end = Some (Inr dead_end) \<and> spec_solve dead_end = Some dead_end \<and>
   is_completed dead_end = Inr False"
  using solve_refines_spec [OF grid_shape_dead_end] grid_shape_dead_end
    solve_dead_end dead_end_incomplete
  by (cases "spec_solve dead_end") simp_all

lemma spec_step_keeps:
  assumes "grid_shape g" and "\<forall>h\<in>set hs. grid_shape h" and "hs \<noteq> []"
    and "p \<in> set cells"
    and "\<forall>h\<in>set (g # hs). assigned h p \<and> h ! fst p ! snd p = v"
  shows "\<forall>h\<in>set (fst (spec_step (g, hs)) # snd (spec_step (g, hs))).
           assigned h p \<and> h ! fst p ! snd p = v"
proof -
  have "assigned h p \<and> h ! fst p ! snd p = v" if "h \<in> set (spec_children g)" for h
  proof (cases "spec_most_constrained g")
    case None
    with that show ?thesis by (simp add: spec_children_def)
  next
    case (Some q)
    from most_constrained_props(1,2) [OF Some] have q: "q \<in> set cells" "\<not> assigned g q" .
    from assms(5) have gp: "assigned g p" "g ! fst p ! snd p = v" by simp_all
    with q have "p \<noteq> q" by auto
    from that Some obtain d where "h = put g q d"
      by (auto simp: spec_children_def)
    with put_nth [OF assms(1) q(1) assms(4), of d] \<open>p \<noteq> q\<close> gp show ?thesis
      by (simp add: assigned_def)
  qed
  with assms(5) have "\<forall>h\<in>set (hs @ spec_children g). assigned h p \<and> h ! fst p ! snd p = v"
    by auto
  then show ?thesis by (simp only: spec_step_frontier [OF assms(3)])
qed

lemma solve_negative_cell: "solve negative_cell = Some (Inr filled)"
  by code_simp

text \<open>
  C10, as the code has it. The specification speaks of every cell whose value is
  nonzero. The code takes a cell for assigned when its value is positive, and the
  \<open>int8\<close> array stores a negative value unchecked: on the grid \<open>negative_cell\<close>
  the cell (0, 0) holds -5 when \<open>solve\<close> is called and 5 when it returns.
\<close>

theorem solve_overwrites_negative_counterexample:
  "sint (negative_cell ! 0 ! 0) = - 5 \<and> negative_cell ! 0 ! 0 \<noteq> 0 \<and>
   solve negative_cell = Some (Inr filled) \<and> sint (filled ! 0 ! 0) = 5"
  by (simp add: solve_negative_cell) (simp add: negative_cell_def filled_def)

text \<open>
  C10, amended. On every 9x9 grid, a cell that holds a positive value when
  \<open>solve\<close> is called holds the same value when \<open>solve\<close> returns, whether the
  search ends completed or exhausted.
\<close>

theorem solve_keeps_assigned:
  assumes "grid_shape g" and "r < 9" and "c < 9" and "0 < sint (g ! r ! c)"
  shows "\<exists>g'. solve g = Some (Inr g') \<and> g' ! r ! c = g ! r ! c"
proof -
  let ?P = "\<lambda>s. grid_shape (fst s) \<and> (\<forall>h\<in>set (snd s). grid_shape h) \<and>
      (\<forall>h\<in>set (fst s # snd s). assigned h (r, c) \<and> h ! fst (r, c) ! snd (r, c) = g ! r ! c)"
  from solve_spec [OF assms(1)] obtain t where
    t: "while_option spec_running spec_step (g, [g]) = Some t" and
    s: "solve g = Some (Inr (fst t))"
    by blast
  have cell: "(r, c) \<in> set cells" using assms(2,3) by (simp add: in_cells)
  note pos = assms(4)
  have "?P t"
  proof (rule while_option_rule [where P = ?P, OF _ t])
    show "?P (g, [g])" using assms(1) pos by (simp add: assigned_def)
  next
    fix s assume P: "?P s" and run: "spec_running s"
    obtain live hs where s: "s = (live, hs)" by (cases s)
    from run have ne: "hs \<noteq> []" by (simp add: spec_running_def s)
    from P have sh: "grid_shape live" "\<forall>h\<in>set hs. grid_shape h"
      and keep: "\<forall>h\<in>set (live # hs).
        assigned h (r, c) \<and> h ! fst (r, c) ! snd (r, c) = g ! r ! c"
      by (simp_all add: s)
    from spec_step_shapes [OF sh ne] spec_step_keeps [OF sh ne cell keep]
    show "?P (spec_step s)" unfolding s by blast
  qed
  then have "fst t ! r ! c = g ! r ! c" by simp
  with s show ?thesis by simp
qed

lemma solve_one_blank: "solve one_blank = Some (Inr filled)"
  by code_simp

theorem solve_keeps_assigned_witness:
  "grid_shape one_blank \<and> (0::nat) < 9 \<and> (1::nat) < 9 \<and> 0 < sint (one_blank ! 0 ! 1) \<and>
   solve one_blank = Some (Inr filled) \<and> filled ! 0 ! 1 = one_blank ! 0 ! 1"
proof -
  have pos: "0 < sint (one_blank ! 0 ! 1)"
    by (simp add: one_blank_def filled_def)
  from solve_keeps_assigned [OF grid_shape_one_blank _ _ pos]
  have "filled ! 0 ! 1 = one_blank ! 0 ! 1"
    by (simp add: solve_one_blank)
  with pos grid_shape_one_blank solve_one_blank show ?thesis by simp
qed

end
